theory Spec2Isabelle
  imports Main "HOL-Library.Monad_Syntax"
begin

unbundle bit_operations_syntax

section \<open>N-dimensional arrays\<close>

text \<open>
  A numpy array is modelled by its nesting, the way numpy prints it: a 0-dimensional
  array is a single cell, and an array of dimension \<open>N + 1\<close> is the list of its
  sub-arrays along axis 0.  Every node also stores the shape of its sub-arrays, so that
  an array with a zero-length axis (for instance shape \<open>(0, 3)\<close>) keeps its whole shape.
  The element type is the dtype: \<open>int ndarray\<close> for grids and neighbour counts of an
  integer dtype (the entry point of \<open>spread.py\<close> builds its grid with \<open>dtype=int\<close>),
  \<open>bool ndarray\<close> for a grid of dtype bool and for the result of an elementwise
  comparison.

  Integer cells are unbounded integers.  For a grid of zeros and ones a neighbour count
  is at most twice the number of axes, so no wrap-around of a fixed-width dtype is
  involved in what follows.  The generators are modelled on integer grids; the
  neighbour count is modelled for dtype bool as well, where numpy's arithmetic differs.
\<close>

datatype 'a ndarray = Cell 'a | Arr "nat list" "'a ndarray list"

fun shape :: "'a ndarray \<Rightarrow> nat list" where
  "shape (Cell c) = []"
| "shape (Arr sh xs) = length xs # sh"

definition ndim :: "'a ndarray \<Rightarrow> nat" where
  "ndim a = length (shape a)"

text \<open>\<open>a.size\<close>: the total number of cells.\<close>

definition np_size :: "'a ndarray \<Rightarrow> nat" where
  "np_size a = prod_list (shape a)"

text \<open>
  The values of the datatype that are numpy arrays: all sub-arrays of a node have the
  shape the node records for them (no ragged nesting).
\<close>

fun is_ndarray :: "'a ndarray \<Rightarrow> bool" where
  "is_ndarray (Cell c) = True"
| "is_ndarray (Arr sh xs) = (\<forall>x \<in> set xs. is_ndarray x \<and> shape x = sh)"

text \<open>
  The cell at a multi-index, \<open>a[i0, i1, ...]\<close>; \<open>None\<close> for an index that is out of
  range or has the wrong number of components (numpy raises \<open>IndexError\<close>).
\<close>

fun cell_at :: "'a ndarray \<Rightarrow> nat list \<Rightarrow> 'a option" where
  "cell_at (Cell c) [] = Some c"
| "cell_at (Arr sh xs) (i # idx) = (if i < length xs then cell_at (xs ! i) idx else None)"
| "cell_at _ _ = None"

subsection \<open>The numpy operations used by the simulation\<close>

text \<open>\<open>np.copy\<close>: a fresh array with the same contents; values are immutable here.\<close>

definition np_copy :: "'a ndarray \<Rightarrow> 'a ndarray" where
  "np_copy a = a"

text \<open>\<open>np.zeros(shape)\<close> and \<open>np.zeros_like(a)\<close>.\<close>

fun np_zeros :: "nat list \<Rightarrow> int ndarray" where
  "np_zeros [] = Cell 0"
| "np_zeros (n # sh) = Arr sh (replicate n (np_zeros sh))"

definition np_zeros_like :: "int ndarray \<Rightarrow> int ndarray" where
  "np_zeros_like a = map_ndarray (\<lambda>_. 0) a"

text \<open>
  \<open>np.pad(a, 1, 'constant', constant_values=0)\<close>: one layer of zeros before and
  after the array along every axis.
\<close>

fun np_pad :: "int ndarray \<Rightarrow> int ndarray" where
  "np_pad (Cell c) = Cell c"
| "np_pad (Arr sh xs) =
     (let sh' = map (\<lambda>n. n + 2) sh
      in Arr sh' (np_zeros sh' # map np_pad xs @ [np_zeros sh']))"

text \<open>
  \<open>np.roll(a, shift, axis)\<close>: the sub-arrays along the axis are moved cyclically by
  \<open>shift\<close> places towards higher indices, so that \<open>result[j] = a[(j - shift) mod n]\<close>.
  (numpy raises for an axis that the array does not have; the simulation only rolls
  along axes below \<open>ndim\<close>.)
\<close>

definition roll_list :: "int \<Rightarrow> 'a list \<Rightarrow> 'a list" where
  "roll_list shift xs = rotate (nat ((- shift) mod int (length xs))) xs"

fun np_roll :: "'a ndarray \<Rightarrow> int \<Rightarrow> nat \<Rightarrow> 'a ndarray" where
  "np_roll (Cell c) shift axis = Cell c"
| "np_roll (Arr sh xs) shift 0 = Arr sh (roll_list shift xs)"
| "np_roll (Arr sh xs) shift (Suc axis) = Arr sh (map (\<lambda>x. np_roll x shift axis) xs)"

text \<open>
  Elementwise binary operations on two arrays of one shape.  (On different shapes numpy
  broadcasts or raises; every use below has operands of one shape, and the remaining
  equation only makes the function total.)
\<close>

function elementwise :: "('a \<Rightarrow> 'b \<Rightarrow> 'c) \<Rightarrow> 'a ndarray \<Rightarrow> 'b ndarray \<Rightarrow> 'c ndarray" where
  "elementwise f (Cell a) (Cell b) = Cell (f a b)"
| "elementwise f (Arr sa xs) (Arr sb ys) = Arr sa (map2 (elementwise f) xs ys)"
| "elementwise f (Cell a) (Arr sb ys) = Arr sb []"
| "elementwise f (Arr sa xs) (Cell b) = Arr sa []"
  by pat_completeness auto
termination
  by (relation "measure (\<lambda>(f, a, b). size a)")
     (auto dest!: set_zip_leftD simp: less_Suc_eq_le size_list_estimation')

text \<open>\<open>a + b\<close>, \<open>a | b\<close> and \<open>a == b\<close> on arrays of an integer dtype.\<close>

definition np_add :: "int ndarray \<Rightarrow> int ndarray \<Rightarrow> int ndarray" where
  "np_add a b = elementwise (\<lambda>x y. x + y) a b"

definition np_bitwise_or :: "int ndarray \<Rightarrow> int ndarray \<Rightarrow> int ndarray" where
  "np_bitwise_or a b = elementwise (\<lambda>x y. x OR y) a b"

definition np_equal :: "int ndarray \<Rightarrow> int ndarray \<Rightarrow> bool ndarray" where
  "np_equal a b = elementwise (\<lambda>x y. x = y) a b"

text \<open>\<open>np.all(b)\<close>: every cell is true (true for an array without cells).\<close>

definition np_all :: "bool ndarray \<Rightarrow> bool" where
  "np_all b = pred_ndarray (\<lambda>c. c) b"

text \<open>\<open>np.where(weight >= m, 1, 0)\<close>.\<close>

definition np_where_ge :: "int ndarray \<Rightarrow> int \<Rightarrow> int ndarray" where
  "np_where_ge weight m = map_ndarray (\<lambda>w. if w \<ge> m then 1 else 0) weight"

text \<open>
  \<open>weight[tuple(slice(1,-1) for i in range(padded.ndim))]\<close>: the slice \<open>1:-1\<close> along
  every axis, which drops the first and the last index of each axis.
\<close>

fun slice_inner :: "'a ndarray \<Rightarrow> 'a ndarray" where
  "slice_inner (Cell c) = Cell c"
| "slice_inner (Arr sh xs) = Arr (map (\<lambda>n. n - 2) sh) (butlast (tl (map slice_inner xs)))"

section \<open>Neighbour counts and the update step\<close>

text \<open>
  The counting loop of both generators:
  \<^verbatim>\<open>weight = np.zeros_like(a)
for i in range(a.ndim):
    weight += np.roll(a, 1, axis=i) + np.roll(a, -1, axis=i)\<close>
\<close>

definition axis_neighbors :: "int ndarray \<Rightarrow> nat \<Rightarrow> int ndarray" where
  "axis_neighbors a i = np_add (np_roll a 1 i) (np_roll a (- 1) i)"

definition neighbor_count :: "int ndarray \<Rightarrow> int ndarray" where
  "neighbor_count a =
     foldl (\<lambda>weight i. np_add weight (axis_neighbors a i)) (np_zeros_like a) [0..<ndim a]"





text \<open>The body of the loop of \<open>spread_lattice\<close> between the \<open>yield\<close> and the test.\<close>

definition lattice_update :: "int \<Rightarrow> int ndarray \<Rightarrow> int ndarray" where
  "lattice_update m infected =
     (let padded = np_pad infected;
          weight = slice_inner (neighbor_count padded)
      in np_bitwise_or (np_where_ge weight m) infected)"

text \<open>The body of the loop of \<open>spread_torus\<close> between the \<open>yield\<close> and the test.\<close>

definition torus_update :: "int \<Rightarrow> int ndarray \<Rightarrow> int ndarray" where
  "torus_update m infected =
     (let weight = neighbor_count infected
      in np_bitwise_or (np_where_ge weight m) infected)"

section \<open>The generators\<close>

text \<open>
  A generator is modelled by the list of the values it yields when it is run to its end.
  The \<open>while True\<close> loop may in principle run forever, so the loops are partial
  functions: \<open>None\<close> stands for a generator that never stops.
\<close>

partial_function (option) lattice_loop :: "int \<Rightarrow> int ndarray \<Rightarrow> int ndarray list option" where
  "lattice_loop m infected =
     (let last_infected = np_copy infected;
          infected' = lattice_update m infected
      in if np_all (np_equal infected' last_infected) then Some [infected]
         else do { rest \<leftarrow> lattice_loop m infected'; Some (infected # rest) })"

partial_function (option) torus_loop :: "int \<Rightarrow> int ndarray \<Rightarrow> int ndarray list option" where
  "torus_loop m infected =
     (let last_infected = np_copy infected;
          infected' = torus_update m infected
      in if np_all (np_equal infected' last_infected) then Some [infected]
         else do { rest \<leftarrow> torus_loop m infected'; Some (infected # rest) })"

definition spread_lattice :: "int ndarray \<Rightarrow> int \<Rightarrow> int ndarray list option" where
  "spread_lattice start m = lattice_loop m (np_copy start)"

definition spread_torus :: "int ndarray \<Rightarrow> int \<Rightarrow> int ndarray list option" where
  "spread_torus start m = torus_loop m (np_copy start)"

section \<open>Notions used to state the properties\<close>

text \<open>
  One cell across one update: the new value is the old one, or the old one with the
  indicator \<open>1\<close> of \<open>np.where\<close> or-ed in.
\<close>

definition spread_cell :: "int \<Rightarrow> int \<Rightarrow> bool" where
  "spread_cell new old \<longleftrightarrow> new = old \<or> new = 1 OR old"

text \<open>
  The number of cells whose lowest bit is clear; on a grid of zeros and ones these are
  the Uninfected cells.  It bounds the number of updates that change the grid.
\<close>

fun uninfected :: "int ndarray \<Rightarrow> nat" where
  "uninfected (Cell c) = (if even c then 1 else 0)"
| "uninfected (Arr sh xs) = sum_list (map uninfected xs)"


text \<open>A grid of zeros and ones.\<close>

definition binary_grid :: "int ndarray \<Rightarrow> bool" where
  "binary_grid a \<longleftrightarrow> is_ndarray a \<and> pred_ndarray (\<lambda>c. c = 0 \<or> c = 1) a"

text \<open>
  The order on the cells of two grids of zeros and ones: an Infected cell of the first
  grid is Infected in the second.
\<close>

definition infected_le :: "int \<Rightarrow> int \<Rightarrow> bool" where
  "infected_le x y \<longleftrightarrow> x \<le> y \<and> (x = 0 \<or> x = 1) \<and> (y = 0 \<or> y = 1)"

section \<open>Shapes\<close>

lemma shape_map_ndarray: "shape (map_ndarray f a) = shape a"
  by (cases a) simp_all

lemma is_ndarray_map_ndarray: "is_ndarray (map_ndarray f a) = is_ndarray a"
  by (induction a) (auto simp: shape_map_ndarray)

lemma shape_np_zeros: "shape (np_zeros sh) = sh"
  by (cases sh) simp_all

lemma is_ndarray_np_zeros: "is_ndarray (np_zeros sh)"
  by (induction sh) (simp_all add: shape_np_zeros)

lemma shape_np_pad: "shape (np_pad a) = map (\<lambda>n. n + 2) (shape a)"
  by (cases a) (simp_all add: Let_def)

lemma is_ndarray_np_pad: "is_ndarray a \<Longrightarrow> is_ndarray (np_pad a)"
  by (induction a) (auto simp: Let_def shape_np_pad shape_np_zeros is_ndarray_np_zeros)

lemma length_roll_list: "length (roll_list s xs) = length xs"
  by (simp add: roll_list_def)

lemma set_roll_list: "set (roll_list s xs) = set xs"
  by (simp add: roll_list_def)

lemma shape_np_roll: "shape (np_roll a s i) = shape a"
  by (cases "(a, s, i)" rule: np_roll.cases) (simp_all add: length_roll_list)

lemma is_ndarray_np_roll: "is_ndarray a \<Longrightarrow> is_ndarray (np_roll a s i)"
  by (induction a s i rule: np_roll.induct) (auto simp: set_roll_list shape_np_roll)

lemma shape_slice_inner: "shape (slice_inner a) = map (\<lambda>n. n - 2) (shape a)"
  by (cases a) simp_all

lemma set_butlast_tl: "z \<in> set (butlast (tl ys)) \<Longrightarrow> z \<in> set ys"
  by (cases ys) (auto dest: in_set_butlastD)

lemma is_ndarray_slice_inner: "is_ndarray a \<Longrightarrow> is_ndarray (slice_inner a)"
  by (induction a) (auto simp: shape_slice_inner dest!: set_butlast_tl)

lemma elementwise_shape:
  "is_ndarray a \<Longrightarrow> is_ndarray b \<Longrightarrow> shape a = shape b \<Longrightarrow>
   is_ndarray (elementwise f a b) \<and> shape (elementwise f a b) = shape a"
proof (induction f a b rule: elementwise.induct)
  case (2 f sa xs sb ys)
  have "is_ndarray z \<and> shape z = sa" if "z \<in> set (map2 (elementwise f) xs ys)" for z
  proof -
    from that obtain x y where xy: "(x, y) \<in> set (zip xs ys)" and z: "z = elementwise f x y"
      by auto
    then have "x \<in> set xs" "y \<in> set ys"
      by (auto dest: set_zip_leftD set_zip_rightD)
    with "2.prems" have "is_ndarray x" "is_ndarray y" "shape x = shape y" "shape x = sa"
      by auto
    with "2.IH"[OF xy refl] z show ?thesis
      by simp
  qed
  with "2.prems" show ?case
    by simp
qed simp_all

section \<open>Cellwise relations between arrays\<close>

text \<open>
  \<open>rel_ndarray R a b\<close> holds when \<open>a\<close> and \<open>b\<close> have the same nesting and \<open>R\<close>
  relates the cells at every position.  Each numpy operation maps related arrays to
  related arrays.
\<close>

lemma rel_ndarray_shape: "rel_ndarray R a b \<Longrightarrow> shape a = shape b"
  by (cases a; cases b) (auto dest: list_all2_lengthD)

lemma rel_ndarray_is_ndarray: "rel_ndarray R a b \<Longrightarrow> is_ndarray a \<Longrightarrow> is_ndarray b"
proof (induction a arbitrary: b)
  case (Cell c)
  then show ?case by (cases b) simp_all
next
  case (Arr sh xs)
  then obtain ys where b: "b = Arr sh ys" and xy: "list_all2 (rel_ndarray R) xs ys"
    by (cases b) auto
  have "is_ndarray y \<and> shape y = sh" if "y \<in> set ys" for y
  proof -
    from that obtain i where i: "i < length ys" "y = ys ! i"
      by (auto simp: in_set_conv_nth)
    with xy have "rel_ndarray R (xs ! i) y" "xs ! i \<in> set xs"
      by (auto simp: list_all2_conv_all_nth)
    with Arr.IH[of "xs ! i" y] Arr.prems(2) rel_ndarray_shape[of R "xs ! i" y] show ?thesis
      by auto
  qed
  with b show ?case by simp
qed

lemma same_shape_rel:
  "is_ndarray a \<Longrightarrow> is_ndarray b \<Longrightarrow> shape a = shape b \<Longrightarrow>
   pred_ndarray P a \<Longrightarrow> pred_ndarray Q b \<Longrightarrow> rel_ndarray (\<lambda>x y. P x \<and> Q y) a b"
proof (induction a arbitrary: b)
  case (Cell c)
  then show ?case by (cases b) simp_all
next
  case (Arr sh xs)
  then obtain ys where b: "b = Arr sh ys" and len: "length ys = length xs"
    by (cases b) auto
  have "rel_ndarray (\<lambda>x y. P x \<and> Q y) (xs ! i) (ys ! i)" if "i < length xs" for i
  proof -
    from that len have "xs ! i \<in> set xs" "ys ! i \<in> set ys"
      by simp_all
    with Arr.prems b show ?thesis
      by (intro Arr.IH) (auto simp: list_all_iff)
  qed
  with b len show ?case
    by (simp add: list_all2_conv_all_nth)
qed

lemma rel_np_zeros: "R 0 0 \<Longrightarrow> rel_ndarray R (np_zeros sh) (np_zeros sh)"
  by (induction sh) (simp_all add: list_all2_conv_all_nth)

lemma rel_np_pad: "R 0 0 \<Longrightarrow> rel_ndarray R a b \<Longrightarrow> rel_ndarray R (np_pad a) (np_pad b)"
proof (induction a arbitrary: b)
  case (Cell c)
  then show ?case by (cases b) simp_all
next
  case (Arr sh xs)
  then obtain ys where b: "b = Arr sh ys" and xy: "list_all2 (rel_ndarray R) xs ys"
    by (cases b) auto
  from xy Arr.IH Arr.prems(1) have "list_all2 (rel_ndarray R) (map np_pad xs) (map np_pad ys)"
    by (auto simp: list_all2_conv_all_nth)
  with b Arr.prems(1) show ?case
    by (simp add: Let_def rel_np_zeros list_all2_appendI)
qed

lemma list_all2_rotate: "list_all2 R xs ys \<Longrightarrow> list_all2 R (rotate n xs) (rotate n ys)"
  by (simp add: rotate_drop_take list_all2_lengthD list_all2_appendI list_all2_dropI list_all2_takeI)

lemma list_all2_roll_list: "list_all2 R xs ys \<Longrightarrow> list_all2 R (roll_list s xs) (roll_list s ys)"
  by (simp add: roll_list_def list_all2_rotate list_all2_lengthD)

lemma rel_np_roll: "rel_ndarray R a b \<Longrightarrow> rel_ndarray R (np_roll a s i) (np_roll b s i)"
proof (induction a s i arbitrary: b rule: np_roll.induct)
  case (1 c s i)
  then show ?case by (cases b) simp_all
next
  case (2 sh xs s)
  then show ?case by (cases b) (simp_all add: list_all2_roll_list)
next
  case (3 sh xs s i)
  then obtain ys where b: "b = Arr sh ys" and xy: "list_all2 (rel_ndarray R) xs ys"
    by (cases b) auto
  from xy "3.IH" have "list_all2 (rel_ndarray R) (map (\<lambda>x. np_roll x s i) xs) (map (\<lambda>x. np_roll x s i) ys)"
    by (auto simp: list_all2_conv_all_nth)
  with b show ?case by simp
qed

lemma list_all2_butlast_tl: "list_all2 R xs ys \<Longrightarrow> list_all2 R (butlast (tl xs)) (butlast (tl ys))"
proof -
  assume xy: "list_all2 R xs ys"
  then have "list_all2 R (tl xs) (tl ys)"
    by (cases xs; cases ys) simp_all
  moreover from xy have "length xs = length ys"
    by (rule list_all2_lengthD)
  ultimately show ?thesis
    by (simp add: butlast_conv_take list_all2_takeI)
qed

lemma rel_slice_inner: "rel_ndarray R a b \<Longrightarrow> rel_ndarray R (slice_inner a) (slice_inner b)"
proof (induction rule: ndarray.rel_induct)
  case (Arr sa xs sb ys)
  then have "list_all2 (rel_ndarray R) (map slice_inner xs) (map slice_inner ys)"
    by (simp add: list_all2_conv_all_nth)
  with Arr show ?case by (simp add: list_all2_butlast_tl)
qed simp

lemma rel_elementwise:
  "(\<And>x y u v. R x y \<Longrightarrow> S u v \<Longrightarrow> Q (f x u) (g y v)) \<Longrightarrow>
   rel_ndarray R a b \<Longrightarrow> rel_ndarray S c d \<Longrightarrow>
   rel_ndarray Q (elementwise f a c) (elementwise g b d)"
proof (induction f a c arbitrary: b d rule: elementwise.induct)
  case (1 f x u)
  then show ?case by (cases b; cases d) simp_all
next
  case (2 f sa xs sc us)
  from "2.prems" obtain ys vs where b: "b = Arr sa ys" and d: "d = Arr sc vs"
    and xy: "list_all2 (rel_ndarray R) xs ys" and uv: "list_all2 (rel_ndarray S) us vs"
    by (cases b; cases d) auto
  have len: "length xs = length ys" "length us = length vs"
    using xy uv by (auto dest: list_all2_lengthD)
  have "rel_ndarray Q (elementwise f (xs ! i) (us ! i)) (elementwise g (ys ! i) (vs ! i))"
    if "i < length xs" "i < length us" for i
  proof -
    from that have "(xs ! i, us ! i) \<in> set (zip xs us)"
      by (auto simp: set_zip)
    moreover from that xy uv have "rel_ndarray R (xs ! i) (ys ! i)" "rel_ndarray S (us ! i) (vs ! i)"
      by (auto simp: list_all2_conv_all_nth)
    ultimately show ?thesis
      using "2.prems"(1) by (intro "2.IH"[OF _ refl]) 
  qed
  with b d len show ?case
    by (simp add: list_all2_conv_all_nth)
next
  case (3 f x sc us)
  then show ?case by (cases b; cases d) simp_all
next
  case (4 f sa xs u)
  then show ?case by (cases b; cases d) simp_all
qed

lemma elementwise_self: "elementwise (\<lambda>x y. y) c c = c"
proof (induction c)
  case (Arr sh xs)
  have "map2 (elementwise (\<lambda>x y. y)) xs xs = map (\<lambda>x. x) xs"
    unfolding zip_same_conv_map map_map using Arr
    by (intro map_cong) auto
  then show ?case by simp
qed simp

lemma rel_elementwise_right:
  assumes "\<And>x y w v. R x w \<Longrightarrow> S y v \<Longrightarrow> Q (f x y) v" "rel_ndarray R a c" "rel_ndarray S b c"
  shows "rel_ndarray Q (elementwise f a b) c"
proof -
  have "rel_ndarray Q (elementwise f a b) (elementwise (\<lambda>x y. y) c c)"
    using assms by (intro rel_elementwise[of R S]) auto
  then show ?thesis by (simp add: elementwise_self)
qed

lemma rel_ndarray_weaken:
  "rel_ndarray R a b \<Longrightarrow> (\<And>x y. R x y \<Longrightarrow> S x y) \<Longrightarrow> rel_ndarray S a b"
  by (erule ndarray.rel_mono_strong) simp

lemma pred_ndarray_refl: "pred_ndarray P a \<Longrightarrow> rel_ndarray (\<lambda>x y. P x \<and> x = y) a a"
  using ndarray.rel_eq_onp[of P] by (simp add: eq_onp_def[abs_def])

lemma rel_ndarray_pred_left: "rel_ndarray (\<lambda>x y. P x) a b \<Longrightarrow> pred_ndarray P a"
  by (induction rule: ndarray.rel_induct) (simp_all add: list_all2_conv_all_nth list_all_length)

lemma rel_ndarray_pred_right: "rel_ndarray (\<lambda>x y. P y) a b \<Longrightarrow> pred_ndarray P b"
  by (induction rule: ndarray.rel_induct) (simp_all add: list_all2_conv_all_nth list_all_length)

lemma pred_np_roll: "pred_ndarray P a \<Longrightarrow> pred_ndarray P (np_roll a s i)"
  by (rule rel_ndarray_pred_left[where b = "np_roll a s i"], rule rel_np_roll)
     (auto dest!: pred_ndarray_refl elim: rel_ndarray_weaken)

lemma pred_np_pad: "P 0 \<Longrightarrow> pred_ndarray P a \<Longrightarrow> pred_ndarray P (np_pad a)"
  by (rule rel_ndarray_pred_left[where b = "np_pad a"], rule rel_np_pad)
     (auto dest!: pred_ndarray_refl elim: rel_ndarray_weaken)

lemma butlast_tl_replicate: "butlast (tl (replicate (n + 2) z)) = replicate n z"
  by (induction n) simp_all

lemma slice_inner_np_zeros: "slice_inner (np_zeros (map (\<lambda>n. n + 2) sh)) = np_zeros sh"
proof (induction sh)
  case (Cons n sh)
  have "butlast (tl (map slice_inner (replicate (n + 2) (np_zeros (map (\<lambda>n. n + 2) sh))))) =
        replicate n (np_zeros sh)"
    unfolding map_replicate Cons.IH by (rule butlast_tl_replicate)
  then show ?case by (simp add: comp_def)
qed simp

lemma slice_inner_np_pad: "slice_inner (np_pad a) = a"
  by (induction a) (simp_all add: Let_def butlast_append comp_def map_idI)

lemma foldl_invariant:
  "I w \<Longrightarrow> (\<And>w i. i \<in> set js \<Longrightarrow> I w \<Longrightarrow> I (F w i)) \<Longrightarrow> I (foldl F w js)"
  by (induction js arbitrary: w) simp_all

lemma foldl_related:
  "R w w' \<Longrightarrow> (\<And>w w' i. i \<in> set js \<Longrightarrow> R w w' \<Longrightarrow> R (F w i) (G w' i)) \<Longrightarrow>
   R (foldl F w js) (foldl G w' js)"
  by (induction js arbitrary: w w') simp_all

lemma np_roll_rel_self:
  assumes "is_ndarray a" "pred_ndarray P a"
  shows "rel_ndarray (\<lambda>x c. P x) (np_roll a s i) a"
proof -
  have "rel_ndarray (\<lambda>x y. P x \<and> True) (np_roll a s i) a"
    using assms by (intro same_shape_rel) (simp_all add: is_ndarray_np_roll shape_np_roll pred_np_roll ndarray.pred_True)
  then show ?thesis by simp
qed

lemma axis_neighbors_rel_self:
  assumes "is_ndarray a" "pred_ndarray P a" "\<And>x y. P x \<Longrightarrow> P y \<Longrightarrow> P (x + y)"
  shows "rel_ndarray (\<lambda>x c. P x) (axis_neighbors a i) a"
  unfolding axis_neighbors_def np_add_def
  using assms by (intro rel_elementwise_right[where R = "\<lambda>x c. P x" and S = "\<lambda>x c. P x"] np_roll_rel_self)

lemma neighbor_count_rel_self:
  assumes "is_ndarray a" "pred_ndarray P a" "P 0" "\<And>x y. P x \<Longrightarrow> P y \<Longrightarrow> P (x + y)"
  shows "rel_ndarray (\<lambda>w c. P w) (neighbor_count a) a"
  unfolding neighbor_count_def
proof (rule foldl_invariant)
  show "rel_ndarray (\<lambda>w c. P w) (np_zeros_like a) a"
    using assms(3) by (simp add: np_zeros_like_def ndarray.rel_map ndarray.rel_refl)
next
  fix w i
  assume "rel_ndarray (\<lambda>w c. P w) w a"
  then show "rel_ndarray (\<lambda>w c. P w) (np_add w (axis_neighbors a i)) a"
    unfolding np_add_def
    using assms by (intro rel_elementwise_right[where R = "\<lambda>x c. P x" and S = "\<lambda>x c. P x"] axis_neighbors_rel_self)
qed

lemma lattice_weight_rel_self:
  assumes "is_ndarray a" "pred_ndarray P a" "P 0" "\<And>x y. P x \<Longrightarrow> P y \<Longrightarrow> P (x + y)"
  shows "rel_ndarray (\<lambda>w c. P w) (slice_inner (neighbor_count (np_pad a))) a"
proof -
  have "rel_ndarray (\<lambda>w c. P w) (neighbor_count (np_pad a)) (np_pad a)"
    using assms by (intro neighbor_count_rel_self is_ndarray_np_pad pred_np_pad)
  then have "rel_ndarray (\<lambda>w c. P w) (slice_inner (neighbor_count (np_pad a))) (slice_inner (np_pad a))"
    by (rule rel_slice_inner)
  then show ?thesis by (simp add: slice_inner_np_pad)
qed

section \<open>One update and the loop\<close>

lemma rel_ndarray_is_ndarray_left: "rel_ndarray R a b \<Longrightarrow> is_ndarray b \<Longrightarrow> is_ndarray a"
  using rel_ndarray_is_ndarray[of "R\<inverse>\<inverse>" b a] by (simp add: ndarray.rel_flip)

lemma np_all_equal_iff: "rel_ndarray R a b \<Longrightarrow> np_all (np_equal a b) \<longleftrightarrow> a = b"
  unfolding np_all_def np_equal_def
proof (induction rule: ndarray.rel_induct)
  case (Arr sa xs sb ys)
  then have "length xs = length ys"
    and "\<And>i. i < length xs \<Longrightarrow>
           pred_ndarray (\<lambda>c. c) (elementwise (=) (xs ! i) (ys ! i)) \<longleftrightarrow> xs ! i = ys ! i"
    by (simp_all add: list_all2_conv_all_nth)
  with Arr(1) show ?case
    by (simp add: list_all_length list_eq_iff_nth_eq[of xs ys])
qed simp

lemma sum_list_related:
  "list_all2 (\<lambda>x y. f x \<le> f y \<and> (x \<noteq> y \<longrightarrow> f x < f y)) xs ys \<Longrightarrow>
   sum_list (map f xs) \<le> sum_list (map f ys) \<and>
   (xs \<noteq> ys \<longrightarrow> sum_list (map f xs) < sum_list (map f ys))" for f :: "'a \<Rightarrow> nat"
  by (induction rule: list_all2_induct) (auto intro: add_le_less_mono add_less_le_mono add_mono)

lemma spread_cell_parity: "spread_cell n c \<Longrightarrow> n \<noteq> c \<Longrightarrow> even c \<and> odd n"
  by (auto simp: spread_cell_def one_or_eq)

lemma uninfected_decreases:
  "rel_ndarray spread_cell a b \<Longrightarrow>
   uninfected a \<le> uninfected b \<and> (a \<noteq> b \<longrightarrow> uninfected a < uninfected b)"
proof (induction rule: ndarray.rel_induct)
  case (Cell n c)
  then show ?case using spread_cell_parity[of n c] by auto
next
  case (Arr sa xs sb ys)
  from sum_list_related[OF Arr(2)] Arr(1) show ?case by simp
qed

lemma sum_list_bounded: "(\<And>x. x \<in> set xs \<Longrightarrow> f x \<le> b) \<Longrightarrow> sum_list (map f xs) \<le> length xs * b"
  for f :: "'a \<Rightarrow> nat"
  by (induction xs) (simp_all add: add_mono)

lemma uninfected_le_np_size: "is_ndarray a \<Longrightarrow> uninfected a \<le> np_size a"
proof (induction a)
  case (Arr sh xs)
  then have "uninfected x \<le> prod_list sh" if "x \<in> set xs" for x
    using that by (auto simp: np_size_def)
  then show ?case
    by (simp add: np_size_def sum_list_bounded)
qed (simp add: np_size_def)

lemma weight_to_update:
  assumes "rel_ndarray (\<lambda>w c. True) weight a"
  shows "rel_ndarray spread_cell (np_bitwise_or (np_where_ge weight m) a) a"
  unfolding np_bitwise_or_def np_where_ge_def
proof (rule rel_elementwise_right[where R = "\<lambda>x c. x = 0 \<or> x = 1" and S = "(=)"])
  show "rel_ndarray (\<lambda>x c. x = 0 \<or> x = 1) (map_ndarray (\<lambda>w. if m \<le> w then 1 else 0) weight) a"
    unfolding ndarray.rel_map using assms by (rule rel_ndarray_weaken) simp
qed (auto simp: ndarray.rel_eq spread_cell_def)

lemma lattice_update_spreads: "is_ndarray a \<Longrightarrow> rel_ndarray spread_cell (lattice_update m a) a"
  unfolding lattice_update_def Let_def
  by (intro weight_to_update lattice_weight_rel_self) (simp_all add: ndarray.pred_True)

lemma torus_update_spreads: "is_ndarray a \<Longrightarrow> rel_ndarray spread_cell (torus_update m a) a"
  unfolding torus_update_def Let_def
  by (intro weight_to_update neighbor_count_rel_self) (simp_all add: ndarray.pred_True)

lemma loop_converges:
  fixes L :: "int ndarray \<Rightarrow> int ndarray list option" and upd :: "int ndarray \<Rightarrow> int ndarray"
  assumes unfold: "\<And>x. L x = (if np_all (np_equal (upd x) x) then Some [x]
                               else do { rest \<leftarrow> L (upd x); Some (x # rest) })"
    and spreads: "\<And>x. is_ndarray x \<Longrightarrow> rel_ndarray spread_cell (upd x) x"
  shows "is_ndarray x \<Longrightarrow>
         \<exists>n \<le> uninfected x. L x = Some (map (\<lambda>k. (upd ^^ k) x) [0..<Suc n]) \<and>
             (\<forall>k<n. (upd ^^ Suc k) x \<noteq> (upd ^^ k) x) \<and> (upd ^^ Suc n) x = (upd ^^ n) x"
proof (induction "uninfected x" arbitrary: x rule: less_induct)
  case less
  note rel = spreads[OF less.prems]
  show ?case
  proof (cases "upd x = x")
    case True
    with rel have "L x = Some [x]"
      by (subst unfold) (simp add: np_all_equal_iff)
    with True show ?thesis
      by (intro exI[of _ 0]) simp
  next
    case False
    with rel have step: "L x = do { rest \<leftarrow> L (upd x); Some (x # rest) }"
      by (subst unfold) (simp add: np_all_equal_iff)
    from rel False have less': "uninfected (upd x) < uninfected x"
      using uninfected_decreases by blast
    moreover from rel less.prems have "is_ndarray (upd x)"
      by (rule rel_ndarray_is_ndarray_left)
    ultimately obtain n where n: "n \<le> uninfected (upd x)"
      "L (upd x) = Some (map (\<lambda>k. (upd ^^ k) (upd x)) [0..<Suc n])"
      "\<forall>k<n. (upd ^^ Suc k) (upd x) \<noteq> (upd ^^ k) (upd x)"
      "(upd ^^ Suc n) (upd x) = (upd ^^ n) (upd x)"
      using less.hyps by blast
    have shift: "(upd ^^ k) (upd x) = (upd ^^ Suc k) x" for k
      by (simp add: funpow_swap1)
    have "L x = Some (map (\<lambda>k. (upd ^^ k) x) [0..<Suc (Suc n)])"
      unfolding step n(2) shift by (simp add: map_upt_Suc del: upt_Suc funpow.simps)
    moreover have "\<forall>k<Suc n. (upd ^^ Suc k) x \<noteq> (upd ^^ k) x"
    proof (intro allI impI)
      fix k assume "k < Suc n"
      then show "(upd ^^ Suc k) x \<noteq> (upd ^^ k) x"
        using n(3) False unfolding shift by (cases k) (simp_all del: funpow.simps, simp)
    qed
    moreover have "(upd ^^ Suc (Suc n)) x = (upd ^^ Suc n) x"
      using n(4) unfolding shift .
    moreover have "Suc n \<le> uninfected x"
      using n(1) less' by simp
    ultimately show ?thesis
      by blast
  qed
qed

lemma lattice_loop_unfold:
  "lattice_loop m x = (if np_all (np_equal (lattice_update m x) x) then Some [x]
                       else do { rest \<leftarrow> lattice_loop m (lattice_update m x); Some (x # rest) })"
  by (subst lattice_loop.simps) (simp add: np_copy_def Let_def)

lemma torus_loop_unfold:
  "torus_loop m x = (if np_all (np_equal (torus_update m x) x) then Some [x]
                     else do { rest \<leftarrow> torus_loop m (torus_update m x); Some (x # rest) })"
  by (subst torus_loop.simps) (simp add: np_copy_def Let_def)

lemma lattice_converges:
  "is_ndarray x \<Longrightarrow>
   \<exists>n \<le> uninfected x. lattice_loop m x = Some (map (\<lambda>k. (lattice_update m ^^ k) x) [0..<Suc n]) \<and>
      (\<forall>k<n. (lattice_update m ^^ Suc k) x \<noteq> (lattice_update m ^^ k) x) \<and>
      (lattice_update m ^^ Suc n) x = (lattice_update m ^^ n) x"
  by (rule loop_converges) (rule lattice_loop_unfold, rule lattice_update_spreads)

lemma torus_converges:
  "is_ndarray x \<Longrightarrow>
   \<exists>n \<le> uninfected x. torus_loop m x = Some (map (\<lambda>k. (torus_update m ^^ k) x) [0..<Suc n]) \<and>
      (\<forall>k<n. (torus_update m ^^ Suc k) x \<noteq> (torus_update m ^^ k) x) \<and>
      (torus_update m ^^ Suc n) x = (torus_update m ^^ n) x"
  by (rule loop_converges) (rule torus_loop_unfold, rule torus_update_spreads)

lemma rel_ndarray_trans:
  assumes "rel_ndarray R a b" "rel_ndarray R b c" "\<And>x y z. R x y \<Longrightarrow> R y z \<Longrightarrow> R x z"
  shows "rel_ndarray R a c"
proof -
  from assms(1,2) have "(rel_ndarray R OO rel_ndarray R) a c"
    by (rule relcomppI)
  then have "rel_ndarray (R OO R) a c"
    by (simp add: ndarray.rel_compp)
  then show ?thesis
    by (rule rel_ndarray_weaken) (auto intro: assms(3))
qed

lemma funpow_related:
  assumes step: "\<And>x. is_ndarray x \<Longrightarrow> rel_ndarray R (upd x) x"
    and refl: "\<And>x. R x x" and trans: "\<And>x y z. R x y \<Longrightarrow> R y z \<Longrightarrow> R x z"
  shows "is_ndarray x \<Longrightarrow> rel_ndarray R ((upd ^^ k) x) x \<and> is_ndarray ((upd ^^ k) x)"
proof (induction k)
  case 0
  then show ?case by (simp add: ndarray.rel_refl refl)
next
  case (Suc k)
  then have ih: "rel_ndarray R ((upd ^^ k) x) x" "is_ndarray ((upd ^^ k) x)"
    by simp_all
  from step[OF ih(2)] have s: "rel_ndarray R ((upd ^^ Suc k) x) ((upd ^^ k) x)"
    by simp
  from s ih(1) trans have "rel_ndarray R ((upd ^^ Suc k) x) x"
    by (rule rel_ndarray_trans)
  moreover from s ih(2) have "is_ndarray ((upd ^^ Suc k) x)"
    by (rule rel_ndarray_is_ndarray_left)
  ultimately show ?case by simp
qed

lemma rel_ndarray_cell_at:
  "rel_ndarray R a b \<Longrightarrow> cell_at a idx = Some x \<Longrightarrow> \<exists>y. cell_at b idx = Some y \<and> R x y"
proof (induction a idx arbitrary: b rule: cell_at.induct)
  case (1 c)
  then show ?case by (cases b) simp_all
next
  case (2 sh xs i idx)
  then obtain ys where b: "b = Arr sh ys" and xy: "list_all2 (rel_ndarray R) xs ys"
    by (cases b) auto
  from "2.prems"(2) have i: "i < length xs" and c: "cell_at (xs ! i) idx = Some x"
    by (simp_all split: if_splits)
  from xy i have "rel_ndarray R (xs ! i) (ys ! i)" "i < length ys"
    by (simp_all add: list_all2_conv_all_nth)
  with "2.IH"[OF i _ c] b show ?case by simp
qed simp_all

lemma rel_ndarray_cell_at_right:
  "rel_ndarray R a b \<Longrightarrow> cell_at b idx = Some y \<Longrightarrow> \<exists>x. cell_at a idx = Some x \<and> R x y"
  using rel_ndarray_cell_at[of "R\<inverse>\<inverse>" b a idx y] by (simp add: ndarray.rel_flip)

lemma stays_infected:
  assumes step: "\<And>x. is_ndarray x \<Longrightarrow> rel_ndarray spread_cell (upd x) x"
    and "is_ndarray x" "i \<le> j" "cell_at ((upd ^^ i) x) idx = Some 1"
  shows "cell_at ((upd ^^ j) x) idx = Some 1"
proof -
  define R :: "int \<Rightarrow> int \<Rightarrow> bool" where "R = (\<lambda>new old. old = 1 \<longrightarrow> new = 1)"
  have one: "rel_ndarray R (upd y) y" if "is_ndarray y" for y
    using step[OF that] by (rule rel_ndarray_weaken) (auto simp: spread_cell_def R_def)
  have iter: "rel_ndarray R ((upd ^^ k) y) y \<and> is_ndarray ((upd ^^ k) y)" if "is_ndarray y" for y k
    using that
  proof (rule funpow_related[rotated -1])
    show "R a a" for a by (simp add: R_def)
    show "R a c" if "R a b" "R b c" for a b c using that by (simp add: R_def)
  qed (rule one)
  from iter[OF assms(2), of i] have wf: "is_ndarray ((upd ^^ i) x)"
    by (rule conjunct2)
  from iter[OF wf, of "j - i"] have "rel_ndarray R ((upd ^^ (j - i)) ((upd ^^ i) x)) ((upd ^^ i) x)"
    by (rule conjunct1)
  moreover have "(upd ^^ (j - i)) ((upd ^^ i) x) = (upd ^^ (j - i + i)) x"
    by (simp only: funpow_add comp_def)
  moreover have "j - i + i = j"
    using assms(3) by simp
  ultimately have "rel_ndarray R ((upd ^^ j) x) ((upd ^^ i) x)"
    by simp
  from rel_ndarray_cell_at_right[OF this assms(4)] show ?thesis
    by (simp add: R_def)
qed


section \<open>The produced sequence\<close>



text \<open>
  Claim C2.  Infection is monotone along the yielded sequence: a cell that holds \<open>1\<close>
  in the state at position \<open>i\<close> holds \<open>1\<close> in the state at every later position
  \<open>j\<close>, in particular at \<open>i + 1\<close>; for every array, whatever its number of axes and
  its shape, and for every threshold.
\<close>

theorem infection_monotone:
  assumes "is_ndarray start"
  shows "(\<exists>states. spread_lattice start m = Some states \<and>
            (\<forall>i j idx. i \<le> j \<and> j < length states \<and> cell_at (states ! i) idx = Some 1
                \<longrightarrow> cell_at (states ! j) idx = Some 1)) \<and>
         (\<exists>states. spread_torus start m = Some states \<and>
            (\<forall>i j idx. i \<le> j \<and> j < length states \<and> cell_at (states ! i) idx = Some 1
                \<longrightarrow> cell_at (states ! j) idx = Some 1))"
proof -
  have gen: "\<exists>states. L start = Some states \<and>
            (\<forall>i j idx. i \<le> j \<and> j < length states \<and> cell_at (states ! i) idx = Some 1
                \<longrightarrow> cell_at (states ! j) idx = Some 1)"
    if conv: "\<exists>n \<le> uninfected start. L start = Some (map (\<lambda>k. (upd ^^ k) start) [0..<Suc n]) \<and>
        (\<forall>k<n. (upd ^^ Suc k) start \<noteq> (upd ^^ k) start) \<and> (upd ^^ Suc n) start = (upd ^^ n) start"
      and spreads: "\<And>x. is_ndarray x \<Longrightarrow> rel_ndarray spread_cell (upd x) x"
    for L :: "int ndarray \<Rightarrow> int ndarray list option" and upd
  proof -
    from conv obtain n where n: "L start = Some (map (\<lambda>k. (upd ^^ k) start) [0..<Suc n])"
      by blast
    have "cell_at (map (\<lambda>k. (upd ^^ k) start) [0..<Suc n] ! j) idx = Some 1"
      if "i \<le> j" "j < length (map (\<lambda>k. (upd ^^ k) start) [0..<Suc n])"
         "cell_at (map (\<lambda>k. (upd ^^ k) start) [0..<Suc n] ! i) idx = Some 1" for i j idx
    proof -
      from that(1,2) have ij: "j < Suc n" "i < Suc n"
        by simp_all
      have nth: "map (\<lambda>k. (upd ^^ k) start) [0..<Suc n] ! k = (upd ^^ k) start" if "k < Suc n" for k
        using that by (simp only: nth_map length_upt nth_upt minus_nat.diff_0 add_0)
      from that(3) have "cell_at ((upd ^^ i) start) idx = Some 1"
        by (simp only: nth[OF ij(2)])
      with spreads assms that(1) have "cell_at ((upd ^^ j) start) idx = Some 1"
        by (rule stays_infected)
      then show ?thesis
        by (simp only: nth[OF ij(1)])
    qed
    with n show ?thesis by blast
  qed
  from gen[of "lattice_loop m" "lattice_update m", OF lattice_converges[OF assms] lattice_update_spreads]
       gen[of "torus_loop m" "torus_update m", OF torus_converges[OF assms] torus_update_spreads]
  show ?thesis
    unfolding spread_lattice_def spread_torus_def np_copy_def by blast
qed

theorem infection_monotone_witness:
  "is_ndarray (Arr [] [Cell (0::int), Cell 1, Cell 0]) \<and>
   ((\<exists>states. spread_lattice (Arr [] [Cell 0, Cell 1, Cell 0]) 1 = Some states \<and>
       (\<forall>i j idx. i \<le> j \<and> j < length states \<and> cell_at (states ! i) idx = Some 1
           \<longrightarrow> cell_at (states ! j) idx = Some 1)) \<and>
    (\<exists>states. spread_torus (Arr [] [Cell 0, Cell 1, Cell 0]) 1 = Some states \<and>
       (\<forall>i j idx. i \<le> j \<and> j < length states \<and> cell_at (states ! i) idx = Some 1
           \<longrightarrow> cell_at (states ! j) idx = Some 1)))"
proof -
  have wf: "is_ndarray (Arr [] [Cell (0::int), Cell 1, Cell 0])"
    by simp
  from wf infection_monotone[OF wf, of 1] show ?thesis
    by blast
qed

text \<open>
  Claim C3.  Both generators stop, and they yield at most (number of cells) + 1 states.
  (This holds for every integer array, so in particular for grids of zeros and ones.)
\<close>

theorem spread_length_bound:
  assumes "is_ndarray start"
  shows "(\<exists>states. spread_lattice start m = Some states \<and> length states \<le> np_size start + 1) \<and>
         (\<exists>states. spread_torus start m = Some states \<and> length states \<le> np_size start + 1)"
proof -
  from lattice_converges[OF assms, of m] obtain n where
    "n \<le> uninfected start" "lattice_loop m start = Some (map (\<lambda>k. (lattice_update m ^^ k) start) [0..<Suc n])"
    by blast
  moreover from torus_converges[OF assms, of m] obtain n' where
    "n' \<le> uninfected start" "torus_loop m start = Some (map (\<lambda>k. (torus_update m ^^ k) start) [0..<Suc n'])"
    by blast
  moreover note uninfected_le_np_size[OF assms]
  ultimately show ?thesis
    by (simp add: spread_lattice_def spread_torus_def np_copy_def del: upt_Suc)
qed

theorem spread_length_bound_witness:
  "is_ndarray (Arr [] [Cell (0::int), Cell 1, Cell 0]) \<and>
   ((\<exists>states. spread_lattice (Arr [] [Cell 0, Cell 1, Cell 0]) 1 = Some states \<and>
       length states \<le> np_size (Arr [] [Cell (0::int), Cell 1, Cell 0]) + 1) \<and>
    (\<exists>states. spread_torus (Arr [] [Cell 0, Cell 1, Cell 0]) 1 = Some states \<and>
       length states \<le> np_size (Arr [] [Cell (0::int), Cell 1, Cell 0]) + 1))"
proof -
  have wf: "is_ndarray (Arr [] [Cell (0::int), Cell 1, Cell 0])"
    by simp
  from wf spread_length_bound[OF wf, of 1] show ?thesis
    by blast
qed

text \<open>
  Claim C7.  The last yielded state is a fixpoint of the update: one more update step
  (neighbour count, threshold, or) applied to it returns it unchanged.
\<close>

theorem final_state_is_fixpoint:
  assumes "is_ndarray start"
  shows "(\<exists>states. spread_lattice start m = Some states \<and> states \<noteq> [] \<and>
            lattice_update m (last states) = last states) \<and>
         (\<exists>states. spread_torus start m = Some states \<and> states \<noteq> [] \<and>
            torus_update m (last states) = last states)"
proof -
  have gen: "\<exists>states. L start = Some states \<and> states \<noteq> [] \<and> upd (last states) = last states"
    if conv: "\<exists>n \<le> uninfected start. L start = Some (map (\<lambda>k. (upd ^^ k) start) [0..<Suc n]) \<and>
        (\<forall>k<n. (upd ^^ Suc k) start \<noteq> (upd ^^ k) start) \<and> (upd ^^ Suc n) start = (upd ^^ n) start"
    for L :: "int ndarray \<Rightarrow> int ndarray list option" and upd
  proof -
    from conv obtain n where n: "L start = Some (map (\<lambda>k. (upd ^^ k) start) [0..<Suc n])"
      "(upd ^^ Suc n) start = (upd ^^ n) start"
      by blast
    have "last (map (\<lambda>k. (upd ^^ k) start) [0..<Suc n]) = (upd ^^ n) start"
      by (simp add: last_map)
    with n show ?thesis by simp
  qed
  from gen[of "lattice_loop m" "lattice_update m", OF lattice_converges[OF assms]]
       gen[of "torus_loop m" "torus_update m", OF torus_converges[OF assms]]
  show ?thesis
    unfolding spread_lattice_def spread_torus_def np_copy_def by blast
qed

theorem final_state_is_fixpoint_witness:
  "is_ndarray (Arr [] [Cell (0::int), Cell 1, Cell 0]) \<and>
   ((\<exists>states. spread_lattice (Arr [] [Cell 0, Cell 1, Cell 0]) 1 = Some states \<and> states \<noteq> [] \<and>
       lattice_update 1 (last states) = last states) \<and>
    (\<exists>states. spread_torus (Arr [] [Cell 0, Cell 1, Cell 0]) 1 = Some states \<and> states \<noteq> [] \<and>
       torus_update 1 (last states) = last states))"
proof -
  have wf: "is_ndarray (Arr [] [Cell (0::int), Cell 1, Cell 0])"
    by simp
  from wf final_state_is_fixpoint[OF wf, of 1] show ?thesis
    by blast
qed

text \<open>
  Claim C8 (scenario A).  On the line \<open>[0,0,1,0,0]\<close> with threshold 1 the bounded
  generator yields exactly \<open>[0,0,1,0,0]\<close>, \<open>[0,1,1,1,0]\<close>, \<open>[1,1,1,1,1]\<close>; the next
  computed state equals \<open>[1,1,1,1,1]\<close> and is not yielded.
\<close>

theorem scenario_a_bounded_line:
  "spread_lattice (Arr [] [Cell 0, Cell 0, Cell 1, Cell 0, Cell 0]) 1 =
     Some [Arr [] [Cell 0, Cell 0, Cell 1, Cell 0, Cell 0],
           Arr [] [Cell 0, Cell 1, Cell 1, Cell 1, Cell 0],
           Arr [] [Cell 1, Cell 1, Cell 1, Cell 1, Cell 1]] \<and>
   lattice_update 1 (Arr [] [Cell 1, Cell 1, Cell 1, Cell 1, Cell 1]) =
     Arr [] [Cell 1, Cell 1, Cell 1, Cell 1, Cell 1]"
proof -
  let ?s0 = "Arr [] [Cell 0, Cell 0, Cell 1, Cell 0, Cell (0::int)]"
  let ?s1 = "Arr [] [Cell 0, Cell 1, Cell 1, Cell 1, Cell (0::int)]"
  let ?s2 = "Arr [] [Cell 1, Cell 1, Cell 1, Cell 1, Cell (1::int)]"
  have u0: "lattice_update 1 ?s0 = ?s1" by code_simp
  have u1: "lattice_update 1 ?s1 = ?s2" by code_simp
  have u2: "lattice_update 1 ?s2 = ?s2" by code_simp
  have e0: "\<not> np_all (np_equal ?s1 ?s0)" by (simp add: np_all_def np_equal_def)
  have e1: "\<not> np_all (np_equal ?s2 ?s1)" by (simp add: np_all_def np_equal_def)
  have e2: "np_all (np_equal ?s2 ?s2)" by (simp add: np_all_def np_equal_def)
  have l2: "lattice_loop 1 ?s2 = Some [?s2]"
    by (subst lattice_loop_unfold) (simp only: u2 e2 if_True)
  have l1: "lattice_loop 1 ?s1 = Some [?s1, ?s2]"
    by (subst lattice_loop_unfold) (simp only: u1 e1 if_False l2 bind.simps)
  have l0: "lattice_loop 1 ?s0 = Some [?s0, ?s1, ?s2]"
    by (subst lattice_loop_unfold) (simp only: u0 e0 if_False l1 bind.simps)
  from l0 u2 show ?thesis
    by (simp only: spread_lattice_def np_copy_def simp_thms)
qed

section \<open>Thresholds below one and arrays without cells\<close>

text \<open>
  On a grid of zeros and ones every neighbour count is at least \<open>0\<close>, so a threshold
  \<open>m \<le> 0\<close> is met by every cell and one update infects the whole grid.
\<close>

lemma rel_ndarray_diag: "rel_ndarray R a a \<longleftrightarrow> pred_ndarray (\<lambda>x. R x x) a"
  by (induction a) (simp_all add: list_all2_same list_all_iff)

lemma map_ndarray_fixed: "map_ndarray f a = a \<longleftrightarrow> pred_ndarray (\<lambda>x. f x = x) a"
proof -
  have "map_ndarray f a = a \<longleftrightarrow> rel_ndarray (=) (map_ndarray f a) a"
    by (simp add: ndarray.rel_eq)
  then show ?thesis
    by (simp add: ndarray.rel_map rel_ndarray_diag)
qed

lemma rel_ndarray_map_eq: "rel_ndarray (\<lambda>x y. x = f y) a b \<Longrightarrow> a = map_ndarray f b"
proof -
  assume "rel_ndarray (\<lambda>x y. x = f y) a b"
  then have "rel_ndarray (=) a (map_ndarray f b)"
    by (simp add: ndarray.rel_map)
  then show ?thesis
    by (simp add: ndarray.rel_eq)
qed

lemma weight_all_infect:
  assumes "rel_ndarray (\<lambda>w c. m \<le> w) weight a" "pred_ndarray (\<lambda>c. c = 0 \<or> c = 1) a"
  shows "np_bitwise_or (np_where_ge weight m) a = map_ndarray (\<lambda>c. 1) a"
proof (rule rel_ndarray_map_eq)
  show "rel_ndarray (\<lambda>x y. x = 1) (np_bitwise_or (np_where_ge weight m) a) a"
    unfolding np_bitwise_or_def np_where_ge_def
  proof (rule rel_elementwise_right[where R = "\<lambda>x c. x = 1" and S = "\<lambda>y c. y = 0 \<or> y = 1"])
    show "rel_ndarray (\<lambda>x c. x = 1) (map_ndarray (\<lambda>w. if m \<le> w then 1 else 0) weight) a"
      unfolding ndarray.rel_map using assms(1) by (rule rel_ndarray_weaken) simp
    show "rel_ndarray (\<lambda>y c. y = 0 \<or> y = 1) a a"
      using assms(2) by (simp add: rel_ndarray_diag)
  qed auto
qed

lemma binary_grid_nonneg: "binary_grid a \<Longrightarrow> pred_ndarray (\<lambda>c. 0 \<le> c) a"
  unfolding binary_grid_def by (auto elim!: ndarray.pred_mono_strong)

lemma lattice_update_nonpositive:
  assumes "binary_grid a" "m \<le> 0"
  shows "lattice_update m a = map_ndarray (\<lambda>c. 1) a"
proof -
  have "rel_ndarray (\<lambda>w c. 0 \<le> w) (slice_inner (neighbor_count (np_pad a))) a"
    using assms(1) binary_grid_nonneg[OF assms(1)]
    by (intro lattice_weight_rel_self) (simp_all add: binary_grid_def)
  then have "rel_ndarray (\<lambda>w c. m \<le> w) (slice_inner (neighbor_count (np_pad a))) a"
    by (rule rel_ndarray_weaken) (use assms(2) in simp)
  then show ?thesis
    unfolding lattice_update_def Let_def using assms(1)
    by (intro weight_all_infect) (simp_all add: binary_grid_def)
qed

lemma torus_update_nonpositive:
  assumes "binary_grid a" "m \<le> 0"
  shows "torus_update m a = map_ndarray (\<lambda>c. 1) a"
proof -
  have "rel_ndarray (\<lambda>w c. 0 \<le> w) (neighbor_count a) a"
    using assms(1) binary_grid_nonneg[OF assms(1)]
    by (intro neighbor_count_rel_self) (simp_all add: binary_grid_def)
  then have "rel_ndarray (\<lambda>w c. m \<le> w) (neighbor_count a) a"
    by (rule rel_ndarray_weaken) (use assms(2) in simp)
  then show ?thesis
    unfolding torus_update_def Let_def using assms(1)
    by (intro weight_all_infect) (simp_all add: binary_grid_def)
qed

lemma binary_grid_ones: "binary_grid a \<Longrightarrow> binary_grid (map_ndarray (\<lambda>c. 1) a)"
  by (simp add: binary_grid_def is_ndarray_map_ndarray ndarray.pred_map comp_def ndarray.pred_True)

lemma loop_all_infect:
  fixes L :: "int ndarray \<Rightarrow> int ndarray list option" and upd :: "int ndarray \<Rightarrow> int ndarray"
  assumes unfold: "\<And>x. L x = (if np_all (np_equal (upd x) x) then Some [x]
                               else do { rest \<leftarrow> L (upd x); Some (x # rest) })"
    and ones: "\<And>x. binary_grid x \<Longrightarrow> upd x = map_ndarray (\<lambda>c. 1) x"
    and grid: "binary_grid start"
  shows "L start = Some (if pred_ndarray (\<lambda>c. c = 1) start then [start]
                         else [start, map_ndarray (\<lambda>c. 1) start])"
proof -
  let ?ones = "map_ndarray (\<lambda>c. 1) start"
  have test: "np_all (np_equal (map_ndarray (\<lambda>c. 1) x) x) \<longleftrightarrow> pred_ndarray (\<lambda>c. c = 1) x"
    for x :: "int ndarray"
  proof -
    have "rel_ndarray (\<lambda>x y. True) (map_ndarray (\<lambda>c. 1) x) x"
      by (simp add: ndarray.rel_map ndarray.rel_refl)
    then have "np_all (np_equal (map_ndarray (\<lambda>c. 1) x) x) \<longleftrightarrow> map_ndarray (\<lambda>c. 1) x = x"
      by (rule np_all_equal_iff)
    also have "\<dots> \<longleftrightarrow> pred_ndarray (\<lambda>c. 1 = c) x"
      by (rule map_ndarray_fixed)
    also have "(\<lambda>c. (1::int) = c) = (\<lambda>c. c = 1)"
      by auto
    finally show ?thesis .
  qed
  have all: "pred_ndarray (\<lambda>c. c = 1) ?ones"
    by (simp add: ndarray.pred_map comp_def ndarray.pred_True)
  have "L ?ones = Some [?ones]"
    by (subst unfold) (simp only: ones[OF binary_grid_ones[OF grid]] test all if_True)
  then show ?thesis
    by (subst unfold) (simp add: ones[OF grid] test)
qed

lemma lattice_nonpositive_sequence:
  "binary_grid start \<Longrightarrow> m \<le> 0 \<Longrightarrow>
   lattice_loop m start = Some (if pred_ndarray (\<lambda>c. c = 1) start then [start]
                                else [start, map_ndarray (\<lambda>c. 1) start])"
  by (rule loop_all_infect[where upd = "lattice_update m"])
     (simp_all add: lattice_loop_unfold lattice_update_nonpositive)

lemma torus_nonpositive_sequence:
  "binary_grid start \<Longrightarrow> m \<le> 0 \<Longrightarrow>
   torus_loop m start = Some (if pred_ndarray (\<lambda>c. c = 1) start then [start]
                              else [start, map_ndarray (\<lambda>c. 1) start])"
  by (rule loop_all_infect[where upd = "torus_update m"])
     (simp_all add: torus_loop_unfold torus_update_nonpositive)

lemma empty_grid_sequence:
  assumes "is_ndarray start" "0 \<in> set (shape start)"
  shows "lattice_loop m start = Some [start]" "torus_loop m start = Some [start]"
proof -
  from assms(2) have "np_size start = 0"
    by (simp add: np_size_def prod_list_zero_iff)
  with uninfected_le_np_size[OF assms(1)] have zero: "uninfected start = 0"
    by simp
  from lattice_converges[OF assms(1), of m] zero show "lattice_loop m start = Some [start]"
    by auto
  from torus_converges[OF assms(1), of m] zero show "torus_loop m start = Some [start]"
    by auto
qed

text \<open>
  Claim C5.  With threshold \<open>0\<close> on a grid of zeros and ones, under either boundary
  policy: a grid that is not all-Infected yields exactly two states, the initial one
  followed by the all-Infected one; a grid that is already all-Infected yields exactly
  one state.
\<close>

theorem threshold_zero_sequence:
  assumes "binary_grid start"
  shows "spread_lattice start 0 =
           Some (if pred_ndarray (\<lambda>c. c = 1) start then [start]
                 else [start, map_ndarray (\<lambda>c. 1) start]) \<and>
         spread_torus start 0 =
           Some (if pred_ndarray (\<lambda>c. c = 1) start then [start]
                 else [start, map_ndarray (\<lambda>c. 1) start])"
  unfolding spread_lattice_def spread_torus_def np_copy_def
  using assms by (simp only: lattice_nonpositive_sequence torus_nonpositive_sequence order_refl simp_thms)

theorem threshold_zero_sequence_witness:
  "binary_grid (Arr [] [Cell 0, Cell 1]) \<and>
   spread_lattice (Arr [] [Cell 0, Cell 1]) 0 = Some [Arr [] [Cell 0, Cell 1], Arr [] [Cell 1, Cell 1]] \<and>
   spread_torus (Arr [] [Cell 0, Cell 1]) 0 = Some [Arr [] [Cell 0, Cell 1], Arr [] [Cell 1, Cell 1]]"
proof -
  have grid: "binary_grid (Arr [] [Cell 0, Cell 1])"
    by (simp add: binary_grid_def)
  from grid threshold_zero_sequence[OF grid] show ?thesis
    by simp
qed

text \<open>
  Claim C4.  The claim is that an array with a zero-length axis and a negative threshold
  are rejected before the first state is produced.  Neither generator checks its
  arguments: with threshold \<open>-1\<close> the grid \<open>[0,1]\<close> yields two states, and the array of
  shape \<open>(0,3)\<close> yields itself.
\<close>

theorem no_validation_counterexample:
  "spread_lattice (Arr [] [Cell 0, Cell 1]) (- 1) = Some [Arr [] [Cell 0, Cell 1], Arr [] [Cell 1, Cell 1]] \<and>
   spread_torus (Arr [] [Cell 0, Cell 1]) (- 1) = Some [Arr [] [Cell 0, Cell 1], Arr [] [Cell 1, Cell 1]] \<and>
   spread_lattice (Arr [3] []) 2 = Some [Arr [3] []] \<and>
   spread_torus (Arr [3] []) 2 = Some [Arr [3] []]"
proof -
  have grid: "binary_grid (Arr [] [Cell 0, Cell 1])"
    by (simp add: binary_grid_def)
  have empty: "is_ndarray (Arr [3] ([] :: int ndarray list))" "0 \<in> set (shape (Arr [3] ([] :: int ndarray list)))"
    by simp_all
  from lattice_nonpositive_sequence[OF grid, of "- 1"] torus_nonpositive_sequence[OF grid, of "- 1"]
    empty_grid_sequence[OF empty, of 2]
  show ?thesis
    by (simp add: spread_lattice_def spread_torus_def np_copy_def)
qed

text \<open>
  Claim C4 as the generators behave: nothing is rejected.  An array with a zero-length
  axis is yielded once and the generator stops; a negative threshold on a grid of zeros
  and ones yields the initial state, followed by the all-Infected state unless the grid
  is all-Infected already.
\<close>

theorem no_validation:
  assumes "is_ndarray start"
  shows "(0 \<in> set (shape start) \<longrightarrow>
            spread_lattice start m = Some [start] \<and> spread_torus start m = Some [start]) \<and>
         (m < 0 \<and> binary_grid start \<longrightarrow>
            spread_lattice start m =
              Some (if pred_ndarray (\<lambda>c. c = 1) start then [start]
                    else [start, map_ndarray (\<lambda>c. 1) start]) \<and>
            spread_torus start m =
              Some (if pred_ndarray (\<lambda>c. c = 1) start then [start]
                    else [start, map_ndarray (\<lambda>c. 1) start]))"
  unfolding spread_lattice_def spread_torus_def np_copy_def
  using assms
  by (auto simp only: empty_grid_sequence lattice_nonpositive_sequence torus_nonpositive_sequence
        order_less_imp_le)

theorem no_validation_witness:
  "is_ndarray (Arr [3] ([] :: int ndarray list)) \<and> 0 \<in> set (shape (Arr [3] ([] :: int ndarray list))) \<and>
   spread_lattice (Arr [3] []) 2 = Some [Arr [3] []] \<and> spread_torus (Arr [3] []) 2 = Some [Arr [3] []] \<and>
   is_ndarray (Arr [] [Cell (0::int)]) \<and> (- 1 :: int) < 0 \<and> binary_grid (Arr [] [Cell 0]) \<and>
   spread_lattice (Arr [] [Cell 0]) (- 1) = Some [Arr [] [Cell 0], Arr [] [Cell 1]] \<and>
   spread_torus (Arr [] [Cell 0]) (- 1) = Some [Arr [] [Cell 0], Arr [] [Cell 1]]"
proof -
  have e: "is_ndarray (Arr [3] ([] :: int ndarray list))"
    by simp
  have g: "is_ndarray (Arr [] [Cell (0::int)])" "binary_grid (Arr [] [Cell 0])"
    by (simp_all add: binary_grid_def)
  from no_validation[OF e, of 2] no_validation[OF g(1), of "- 1"] g show ?thesis
    by simp
qed

section \<open>Axes of length one on the torus\<close>







section \<open>Comparing the two boundary policies and different thresholds\<close>

lemma rel_ndarray_comp:
  assumes "rel_ndarray R a b" "rel_ndarray S b c" "\<And>x y z. R x y \<Longrightarrow> S y z \<Longrightarrow> Q x z"
  shows "rel_ndarray Q a c"
proof -
  from assms(1,2) have "(rel_ndarray R OO rel_ndarray S) a c"
    by (rule relcomppI)
  then have "rel_ndarray (R OO S) a c"
    by (simp add: ndarray.rel_compp)
  then show ?thesis
    by (rule rel_ndarray_weaken) (auto intro: assms(3))
qed

lemma axis_neighbors_mono:
  "rel_ndarray (\<le>) a b \<Longrightarrow> rel_ndarray (\<le>) (axis_neighbors a i) (axis_neighbors b i)"
  unfolding axis_neighbors_def np_add_def
  by (intro rel_elementwise[where R = "(\<le>)" and S = "(\<le>)"] rel_np_roll) (simp_all add: add_mono)

lemma neighbor_count_mono:
  assumes "rel_ndarray (\<le>) a b"
  shows "rel_ndarray (\<le>) (neighbor_count a) (neighbor_count b)"
proof -
  from assms have "ndim a = ndim b"
    by (simp add: ndim_def rel_ndarray_shape)
  moreover have "rel_ndarray (\<le>)
      (foldl (\<lambda>weight i. np_add weight (axis_neighbors a i)) (np_zeros_like a) js)
      (foldl (\<lambda>weight i. np_add weight (axis_neighbors b i)) (np_zeros_like b) js)" for js
  proof (rule foldl_related)
    show "rel_ndarray (\<le>) (np_zeros_like a) (np_zeros_like b)"
      unfolding np_zeros_like_def ndarray.rel_map using assms by (rule rel_ndarray_weaken) simp
  next
    fix w w' :: "int ndarray" and i
    assume "rel_ndarray (\<le>) w w'"
    then show "rel_ndarray (\<le>) (np_add w (axis_neighbors a i)) (np_add w' (axis_neighbors b i))"
      unfolding np_add_def using axis_neighbors_mono[OF assms, of i]
      by (intro rel_elementwise[where R = "(\<le>)" and S = "(\<le>)"]) (simp_all add: add_mono)
  qed
  ultimately show ?thesis
    by (simp add: neighbor_count_def)
qed

lemma roll_list_plus_one: "roll_list 1 (ys @ [y]) = y # ys"
proof -
  have "nat ((- 1) mod int (length (ys @ [y]))) = length ys"
    by (simp add: zmod_minus1)
  then have "roll_list 1 (ys @ [y]) = rotate (length ys) (ys @ [y])"
    by (simp only: roll_list_def)
  also have "\<dots> = [y] @ ys"
    by (rule rotate_append)
  finally show ?thesis by simp
qed

lemma roll_list_minus_one: "roll_list (- 1) (y # ys) = ys @ [y]"
proof (cases ys)
  case Nil
  then show ?thesis by (simp add: roll_list_def)
next
  case (Cons u us)
  then have "nat ((- (- 1)) mod int (length (y # ys))) = 1"
    by simp
  then have "roll_list (- 1) (y # ys) = rotate 1 (y # ys)"
    by (simp only: roll_list_def)
  then show ?thesis by simp
qed

lemma np_zeros_le:
  assumes "is_ndarray u" "pred_ndarray (\<lambda>c. 0 \<le> c) u"
  shows "rel_ndarray (\<le>) (np_zeros (shape u)) u"
proof -
  have "rel_ndarray (\<lambda>x y :: int. x = 0) (np_zeros (shape u)) (np_zeros (shape u))"
    by (rule rel_np_zeros) simp
  then have "pred_ndarray (\<lambda>x. x = 0) (np_zeros (shape u))"
    by (rule rel_ndarray_pred_left)
  with assms have "rel_ndarray (\<lambda>x y. x = 0 \<and> 0 \<le> y) (np_zeros (shape u)) u"
    by (intro same_shape_rel) (simp_all add: is_ndarray_np_zeros shape_np_zeros)
  then show ?thesis
    by (rule rel_ndarray_weaken) simp
qed

lemma map2_tl: "tl (map2 g us vs) = map2 g (tl us) (tl vs)"
  by (cases us; cases vs) simp_all

lemma map2_butlast:
  "length us = length vs \<Longrightarrow> butlast (map2 g us vs) = map2 g (butlast us) (butlast vs)"
  by (simp add: butlast_conv_take take_zip take_map)

lemma slice_inner_elementwise:
  "rel_ndarray R x y \<Longrightarrow>
   slice_inner (elementwise f x y) = elementwise f (slice_inner x) (slice_inner y)"
proof (induction rule: ndarray.rel_induct)
  case (Arr sa xs sb ys)
  from Arr(2) have "map slice_inner (map2 (elementwise f) xs ys) =
        map2 (elementwise f) (map slice_inner xs) (map slice_inner ys)"
    by (induction rule: list_all2_induct) simp_all
  moreover from Arr(2) have "length (map slice_inner xs) = length (map slice_inner ys)"
    by (simp add: list_all2_lengthD)
  ultimately show ?case
    by (simp add: map2_tl map2_butlast del: length_map)
qed simp

lemma roll_list_Nil: "roll_list s [] = []"
  by (simp add: roll_list_def)

lemma padded_roll_le:
  "s = 1 \<or> s = - 1 \<Longrightarrow> is_ndarray a \<Longrightarrow> pred_ndarray (\<lambda>c. 0 \<le> c) a \<Longrightarrow> i < ndim a \<Longrightarrow>
   rel_ndarray (\<le>) (slice_inner (np_roll (np_pad a) s i)) (np_roll a s i)"
proof (induction a s i rule: np_roll.induct)
  case (1 c s i)
  then show ?case by (simp add: ndim_def)
next
  case (2 sh xs s)
  let ?sh' = "map (\<lambda>n. n + 2) sh"
  have sh: "map ((\<lambda>n. n - 2) \<circ> (\<lambda>n. Suc (Suc n))) sh = sh"
    by (simp add: comp_def)
  have zs: "slice_inner (np_zeros (map (\<lambda>n. Suc (Suc n)) sh)) = np_zeros sh"
    using slice_inner_np_zeros[of sh] by simp
  have inner: "map slice_inner (map np_pad us) = us" for us
    by (simp add: comp_def slice_inner_np_pad)
  have zero: "rel_ndarray (\<le>) (np_zeros sh) u" if "u \<in> set xs" for u
    using that "2.prems" np_zeros_le[of u] by (auto simp: list_all_iff)
  have same: "list_all2 (rel_ndarray (\<le>)) us us" for us :: "int ndarray list"
    by (simp add: list_all2_same ndarray.rel_refl)
  from "2.prems"(1) show ?case
  proof
    assume s: "s = 1"
    show ?thesis
    proof (cases xs rule: rev_cases)
      case Nil
      with s show ?thesis
        using roll_list_plus_one[of "[np_zeros ?sh']" "np_zeros ?sh'"]
        by (simp add: Let_def sh roll_list_Nil)
    next
      case (snoc us u)
      have "roll_list 1 (np_zeros ?sh' # map np_pad xs @ [np_zeros ?sh']) =
            np_zeros ?sh' # np_zeros ?sh' # map np_pad xs"
        using roll_list_plus_one[of "np_zeros ?sh' # map np_pad xs" "np_zeros ?sh'"] by simp
      then have "slice_inner (np_roll (np_pad (Arr sh xs)) s 0) =
                 Arr sh (butlast (np_zeros sh # xs))"
        using s by (simp add: Let_def sh zs inner[unfolded map_map])
      moreover have "np_roll (Arr sh xs) s 0 = Arr sh (u # us)"
        using s snoc by (simp add: roll_list_plus_one)
      ultimately show ?thesis
        using snoc zero[of u] same[of us] by simp
    qed
  next
    assume s: "s = - 1"
    show ?thesis
    proof (cases xs)
      case Nil
      with s show ?thesis
        using roll_list_minus_one[of "np_zeros ?sh'" "[np_zeros ?sh']"]
        by (simp add: Let_def sh roll_list_Nil)
    next
      case (Cons u us)
      have "roll_list (- 1) (np_zeros ?sh' # map np_pad xs @ [np_zeros ?sh']) =
            map np_pad xs @ [np_zeros ?sh', np_zeros ?sh']"
        using roll_list_minus_one[of "np_zeros ?sh'" "map np_pad xs @ [np_zeros ?sh']"] by simp
      then have "slice_inner (np_roll (np_pad (Arr sh xs)) s 0) =
                 Arr sh (butlast (tl (xs @ [np_zeros sh, np_zeros sh])))"
        using s by (simp add: Let_def sh zs inner[unfolded map_map])
      moreover have "np_roll (Arr sh xs) s 0 = Arr sh (us @ [u])"
        using s Cons by (simp add: roll_list_minus_one)
      ultimately show ?thesis
        using Cons zero[of u] same[of us] by (simp add: butlast_append list_all2_appendI)
    qed
  qed
next
  case (3 sh xs s i)
  let ?sh' = "map (\<lambda>n. n + 2) sh"
  have sh: "map ((\<lambda>n. n - 2) \<circ> (\<lambda>n. Suc (Suc n))) sh = sh"
    by (simp add: comp_def)
  have "rel_ndarray (\<le>) (slice_inner (np_roll (np_pad x) s i)) (np_roll x s i)" if "x \<in> set xs" for x
    using that "3.prems" by (intro "3.IH") (auto simp: ndim_def list_all_iff)
  then have "list_all2 (rel_ndarray (\<le>))
      (map (\<lambda>x. slice_inner (np_roll (np_pad x) s i)) xs) (map (\<lambda>x. np_roll x s i) xs)"
    by (simp add: list_all2_conv_all_nth)
  then show ?case
    by (simp add: Let_def sh butlast_append) (simp add: comp_def)
qed

lemma axis_neighbors_shape:
  assumes "is_ndarray p"
  shows "is_ndarray (axis_neighbors p i) \<and> shape (axis_neighbors p i) = shape p"
  unfolding axis_neighbors_def np_add_def
  using elementwise_shape[of "np_roll p 1 i" "np_roll p (- 1) i" "\<lambda>x y. x + y"] assms
  by (simp add: is_ndarray_np_roll shape_np_roll)

lemma slice_inner_axis_neighbors_le:
  assumes "is_ndarray a" "pred_ndarray (\<lambda>c. 0 \<le> c) a" "i < ndim a"
  shows "rel_ndarray (\<le>) (slice_inner (axis_neighbors (np_pad a) i)) (axis_neighbors a i)"
proof -
  let ?p = "np_pad a"
  have "rel_ndarray (\<lambda>x y. True) (np_roll ?p 1 i) (np_roll ?p (- 1) i)"
    using assms(1)
    by (intro same_shape_rel[where P = "\<lambda>x. True" and Q = "\<lambda>x. True", simplified])
       (simp_all add: is_ndarray_np_roll is_ndarray_np_pad shape_np_roll ndarray.pred_True)
  then have "slice_inner (axis_neighbors ?p i) =
      np_add (slice_inner (np_roll ?p 1 i)) (slice_inner (np_roll ?p (- 1) i))"
    unfolding axis_neighbors_def np_add_def by (rule slice_inner_elementwise)
  moreover have "rel_ndarray (\<le>) (np_add (slice_inner (np_roll ?p 1 i)) (slice_inner (np_roll ?p (- 1) i)))
      (axis_neighbors a i)"
    unfolding axis_neighbors_def np_add_def
    using assms
    by (intro rel_elementwise[where R = "(\<le>)" and S = "(\<le>)"] padded_roll_le) (simp_all add: add_mono)
  ultimately show ?thesis by simp
qed

lemma lattice_weight_le_torus_weight:
  assumes "is_ndarray a" "pred_ndarray (\<lambda>c. 0 \<le> c) a"
  shows "rel_ndarray (\<le>) (slice_inner (neighbor_count (np_pad a))) (neighbor_count a)"
proof -
  let ?p = "np_pad a"
  let ?I = "\<lambda>W V. is_ndarray W \<and> shape W = shape ?p \<and> rel_ndarray (\<le>) (slice_inner W) V"
  have p: "is_ndarray ?p"
    using assms(1) by (rule is_ndarray_np_pad)
  have "?I (foldl (\<lambda>weight i. np_add weight (axis_neighbors ?p i)) (np_zeros_like ?p) [0..<ndim a])
           (foldl (\<lambda>weight i. np_add weight (axis_neighbors a i)) (np_zeros_like a) [0..<ndim a])"
  proof (rule foldl_related[where R = ?I], intro conjI)
    show "is_ndarray (np_zeros_like ?p)" "shape (np_zeros_like ?p) = shape ?p"
      using p by (simp_all add: np_zeros_like_def is_ndarray_map_ndarray shape_map_ndarray)
    have "rel_ndarray (\<lambda>x y. x = 0) (np_zeros_like ?p) ?p"
      by (simp add: np_zeros_like_def ndarray.rel_map ndarray.rel_refl)
    then have "rel_ndarray (\<lambda>x y. x = 0) (slice_inner (np_zeros_like ?p)) (slice_inner ?p)"
      by (rule rel_slice_inner)
    then have "rel_ndarray (\<lambda>x y. x = 0) (slice_inner (np_zeros_like ?p)) a"
      by (simp add: slice_inner_np_pad)
    moreover have "rel_ndarray (\<lambda>y z. z = 0) a (np_zeros_like a)"
      by (simp add: np_zeros_like_def ndarray.rel_map ndarray.rel_refl)
    ultimately show "rel_ndarray (\<le>) (slice_inner (np_zeros_like ?p)) (np_zeros_like a)"
      by (rule rel_ndarray_comp) simp
  next
    fix W V :: "int ndarray" and i
    assume i: "i \<in> set [0..<ndim a]" and inv: "?I W V"
    let ?X = "axis_neighbors ?p i"
    from axis_neighbors_shape[OF p, of i] have X: "is_ndarray ?X" "shape ?X = shape ?p"
      by simp_all
    with inv have WX: "is_ndarray (np_add W ?X) \<and> shape (np_add W ?X) = shape W"
      unfolding np_add_def by (intro elementwise_shape) simp_all
    from inv X have "rel_ndarray (\<lambda>x y. True) W ?X"
      by (intro same_shape_rel[where P = "\<lambda>x. True" and Q = "\<lambda>x. True", simplified])
         (simp_all add: ndarray.pred_True)
    then have "slice_inner (np_add W ?X) = np_add (slice_inner W) (slice_inner ?X)"
      unfolding np_add_def by (rule slice_inner_elementwise)
    moreover have "rel_ndarray (\<le>) (np_add (slice_inner W) (slice_inner ?X)) (np_add V (axis_neighbors a i))"
      unfolding np_add_def
      using inv slice_inner_axis_neighbors_le[OF assms, of i] i
      by (intro rel_elementwise[where R = "(\<le>)" and S = "(\<le>)"]) (simp_all add: add_mono)
    ultimately show "?I (np_add W ?X) (np_add V (axis_neighbors a i))"
      using WX inv by simp
  qed
  moreover have "ndim ?p = ndim a"
    by (simp add: ndim_def shape_np_pad)
  ultimately show ?thesis
    by (simp add: neighbor_count_def)
qed

lemma binary_grid_infected_le: "binary_grid a \<Longrightarrow> rel_ndarray infected_le a a"
  by (auto simp: binary_grid_def rel_ndarray_diag infected_le_def elim!: ndarray.pred_mono_strong)

lemma infected_le_is_le: "rel_ndarray infected_le a b \<Longrightarrow> rel_ndarray (\<le>) a b"
  by (erule rel_ndarray_weaken) (simp add: infected_le_def)

lemma infected_le_nonneg: "rel_ndarray infected_le a b \<Longrightarrow> pred_ndarray (\<lambda>c. 0 \<le> c) a"
  by (rule rel_ndarray_pred_left[where b = b], erule rel_ndarray_weaken) (auto simp: infected_le_def)

lemma update_related:
  assumes "rel_ndarray (\<le>) w w'" "m' \<le> m" "rel_ndarray infected_le a b"
  shows "rel_ndarray infected_le (np_bitwise_or (np_where_ge w m) a) (np_bitwise_or (np_where_ge w' m') b)"
  unfolding np_bitwise_or_def np_where_ge_def
proof (rule rel_elementwise[where R = infected_le and S = infected_le])
  show "rel_ndarray infected_le (map_ndarray (\<lambda>w. if m \<le> w then 1 else 0) w)
          (map_ndarray (\<lambda>w. if m' \<le> w then 1 else 0) w')"
    unfolding ndarray.rel_map using assms(1)
    by (rule rel_ndarray_weaken) (use assms(2) in \<open>auto simp: infected_le_def\<close>)
  show "rel_ndarray infected_le a b"
    by (rule assms(3))
  show "infected_le (x OR u) (y OR v)" if "infected_le x y" "infected_le u v" for x y u v
    using that by (auto simp: infected_le_def)
qed

lemma lattice_weight_mono:
  "rel_ndarray (\<le>) a b \<Longrightarrow>
   rel_ndarray (\<le>) (slice_inner (neighbor_count (np_pad a))) (slice_inner (neighbor_count (np_pad b)))"
  by (intro rel_slice_inner neighbor_count_mono rel_np_pad) simp_all

lemma lattice_update_related:
  "rel_ndarray infected_le a b \<Longrightarrow> m' \<le> m \<Longrightarrow>
   rel_ndarray infected_le (lattice_update m a) (lattice_update m' b)"
  unfolding lattice_update_def Let_def
  by (intro update_related lattice_weight_mono infected_le_is_le)

lemma torus_update_related:
  "rel_ndarray infected_le a b \<Longrightarrow> m' \<le> m \<Longrightarrow>
   rel_ndarray infected_le (torus_update m a) (torus_update m' b)"
  unfolding torus_update_def Let_def
  by (intro update_related neighbor_count_mono infected_le_is_le)

lemma lattice_torus_related:
  assumes "rel_ndarray infected_le a b" "is_ndarray a"
  shows "rel_ndarray infected_le (lattice_update m a) (torus_update m b)"
proof -
  have "rel_ndarray (\<le>) (slice_inner (neighbor_count (np_pad a))) (neighbor_count a)"
    using assms(2) infected_le_nonneg[OF assms(1)] by (rule lattice_weight_le_torus_weight)
  moreover have "rel_ndarray (\<le>) (neighbor_count a) (neighbor_count b)"
    using assms(1) by (intro neighbor_count_mono infected_le_is_le)
  ultimately have "rel_ndarray (\<le>) (slice_inner (neighbor_count (np_pad a))) (neighbor_count b)"
    by (rule rel_ndarray_comp) simp
  then show ?thesis
    unfolding lattice_update_def torus_update_def Let_def
    using assms(1) by (intro update_related) simp_all
qed

lemma funpow_pair_related:
  assumes step: "\<And>a b. rel_ndarray infected_le a b \<Longrightarrow> is_ndarray a \<Longrightarrow>
                   rel_ndarray infected_le (f a) (g b)"
    and wf: "\<And>a. is_ndarray a \<Longrightarrow> is_ndarray (f a)"
    and start: "binary_grid start"
  shows "rel_ndarray infected_le ((f ^^ k) start) ((g ^^ k) start) \<and> is_ndarray ((f ^^ k) start)"
proof (induction k)
  case 0
  from start show ?case
    by (simp add: binary_grid_infected_le) (simp add: binary_grid_def)
next
  case (Suc k)
  then show ?case
    by (simp add: step wf)
qed

lemma infected_cell_transfers:
  assumes "rel_ndarray infected_le a b" "cell_at a idx = Some 1"
  shows "cell_at b idx = Some 1"
  using rel_ndarray_cell_at[OF assms] by (auto simp: infected_le_def)

lemma lattice_update_is_ndarray: "is_ndarray a \<Longrightarrow> is_ndarray (lattice_update m a)"
  using lattice_update_spreads[of a m] by (rule rel_ndarray_is_ndarray_left)

lemma torus_update_is_ndarray: "is_ndarray a \<Longrightarrow> is_ndarray (torus_update m a)"
  using torus_update_spreads[of a m] by (rule rel_ndarray_is_ndarray_left)

text \<open>
  Claim C9.  On a grid of zeros and ones the periodic neighbour counts are cellwise at
  least the bounded ones, and for every threshold and every number \<open>k\<close> of updates a
  cell that is Infected in the \<open>k\<close>-th iterate of the bounded update is Infected in the
  \<open>k\<close>-th iterate of the periodic update.
\<close>

theorem torus_dominates_lattice:
  assumes "binary_grid start" "cell_at ((lattice_update m ^^ k) start) idx = Some 1"
  shows "rel_ndarray (\<le>) (slice_inner (neighbor_count (np_pad start))) (neighbor_count start) \<and>
         cell_at ((torus_update m ^^ k) start) idx = Some 1"
proof
  from assms(1) show "rel_ndarray (\<le>) (slice_inner (neighbor_count (np_pad start))) (neighbor_count start)"
    by (intro lattice_weight_le_torus_weight) (simp_all add: binary_grid_def binary_grid_nonneg)
  have "rel_ndarray infected_le ((lattice_update m ^^ k) start) ((torus_update m ^^ k) start)"
    using funpow_pair_related[of "lattice_update m" "torus_update m" start k] assms(1)
    by (simp add: lattice_torus_related lattice_update_is_ndarray)
  then show "cell_at ((torus_update m ^^ k) start) idx = Some 1"
    using assms(2) by (rule infected_cell_transfers)
qed

theorem torus_dominates_lattice_witness:
  "binary_grid (Arr [] [Cell 1, Cell 0, Cell 0]) \<and>
   cell_at ((lattice_update 1 ^^ 1) (Arr [] [Cell 1, Cell 0, Cell 0])) [1] = Some 1 \<and>
   rel_ndarray (\<le>) (slice_inner (neighbor_count (np_pad (Arr [] [Cell 1, Cell 0, Cell 0]))))
     (neighbor_count (Arr [] [Cell 1, Cell 0, Cell 0])) \<and>
   cell_at ((torus_update 1 ^^ 1) (Arr [] [Cell 1, Cell 0, Cell 0])) [1] = Some 1"
proof -
  have grid: "binary_grid (Arr [] [Cell 1, Cell 0, Cell 0])"
    by (simp add: binary_grid_def)
  have "lattice_update 1 (Arr [] [Cell 1, Cell 0, Cell 0]) = Arr [] [Cell 1, Cell 1, Cell 0]"
    by code_simp
  then have cell: "cell_at ((lattice_update 1 ^^ 1) (Arr [] [Cell 1, Cell 0, Cell 0])) [1] = Some 1"
    by simp
  from grid cell torus_dominates_lattice[OF grid cell] show ?thesis
    by blast
qed

text \<open>
  Claim C10.  On a grid of zeros and ones, for thresholds \<open>m1 \<le> m2\<close> and every number
  \<open>k\<close> of updates, a cell that is Infected in the \<open>k\<close>-th iterate with threshold \<open>m2\<close>
  is Infected in the \<open>k\<close>-th iterate with threshold \<open>m1\<close>, under either boundary
  policy.
\<close>

theorem spread_antitone_in_threshold:
  assumes "binary_grid start" "m1 \<le> m2"
  shows "(cell_at ((lattice_update m2 ^^ k) start) idx = Some 1 \<longrightarrow>
            cell_at ((lattice_update m1 ^^ k) start) idx = Some 1) \<and>
         (cell_at ((torus_update m2 ^^ k) start) idx = Some 1 \<longrightarrow>
            cell_at ((torus_update m1 ^^ k) start) idx = Some 1)"
proof -
  have "rel_ndarray infected_le ((lattice_update m2 ^^ k) start) ((lattice_update m1 ^^ k) start)"
    using funpow_pair_related[of "lattice_update m2" "lattice_update m1" start k] assms
    by (simp add: lattice_update_related lattice_update_is_ndarray)
  moreover have "rel_ndarray infected_le ((torus_update m2 ^^ k) start) ((torus_update m1 ^^ k) start)"
    using funpow_pair_related[of "torus_update m2" "torus_update m1" start k] assms
    by (simp add: torus_update_related torus_update_is_ndarray)
  ultimately show ?thesis
    by (blast intro: infected_cell_transfers)
qed

theorem spread_antitone_in_threshold_witness:
  "binary_grid (Arr [] [Cell 1, Cell 0, Cell 1]) \<and> (1::int) \<le> 2 \<and>
   cell_at ((lattice_update 2 ^^ 1) (Arr [] [Cell 1, Cell 0, Cell 1])) [1] = Some 1 \<and>
   cell_at ((lattice_update 1 ^^ 1) (Arr [] [Cell 1, Cell 0, Cell 1])) [1] = Some 1 \<and>
   cell_at ((torus_update 2 ^^ 1) (Arr [] [Cell 1, Cell 0, Cell 1])) [1] = Some 1 \<and>
   cell_at ((torus_update 1 ^^ 1) (Arr [] [Cell 1, Cell 0, Cell 1])) [1] = Some 1"
proof -
  have grid: "binary_grid (Arr [] [Cell 1, Cell 0, Cell 1])"
    by (simp add: binary_grid_def)
  have le: "(1::int) \<le> 2"
    by simp
  have "lattice_update 2 (Arr [] [Cell 1, Cell 0, Cell 1]) = Arr [] [Cell 1, Cell 1, Cell 1]"
    by code_simp
  then have l: "cell_at ((lattice_update 2 ^^ 1) (Arr [] [Cell 1, Cell 0, Cell 1])) [1] = Some 1"
    by simp
  have "torus_update 2 (Arr [] [Cell 1, Cell 0, Cell 1]) = Arr [] [Cell 1, Cell 1, Cell 1]"
    by code_simp
  then have t: "cell_at ((torus_update 2 ^^ 1) (Arr [] [Cell 1, Cell 0, Cell 1])) [1] = Some 1"
    by simp
  from grid le l t spread_antitone_in_threshold[OF grid le, of 1 "[1]"] show ?thesis
    by blast
qed

end
